theory Spec2Isabelle
  imports Main "HOL-Library.Sublist"
begin

section \<open>Data model\<close>

text \<open>
  The facade \<^verbatim>\<open>AngularFirestoreCollectionGroup\<close> of
  \<^verbatim>\<open>src/firestore/collection-group/collection-group.ts\<close> wraps a Firestore query.
  A document snapshot has an \<^verbatim>\<open>id\<close> and a payload \<^verbatim>\<open>data()\<close>, a JavaScript object,
  modelled as a map from field names to field values.
\<close>

datatype FieldValue = VNull | VBool bool | VNumber int | VString string

type_synonym DocumentData = "string \<rightharpoonup> FieldValue"

record DocumentSnapshot =
  id :: string
  data :: DocumentData

text \<open>
  The change kinds the listener reports. In TypeScript \<^verbatim>\<open>DocumentChangeType\<close> is the union of
  the string literals \<^verbatim>\<open>'added' | 'removed' | 'modified'\<close>; the type is erased at run time,
  so the \<^verbatim>\<open>events\<close> argument of the facade is a list of arbitrary strings, while the
  \<^verbatim>\<open>type\<close> of a change produced by the listener is always one of the three.
\<close>

datatype DocumentChangeType = Added | Modified | Removed

fun type_name :: "DocumentChangeType \<Rightarrow> string" where
  "type_name Added = ''added''"
| "type_name Modified = ''modified''"
| "type_name Removed = ''removed''"

record DocumentChange =
  change_type :: DocumentChangeType
  doc :: DocumentSnapshot
  oldIndex :: int
  newIndex :: int

record DocumentChangeAction =
  type :: DocumentChangeType
  payload :: DocumentChange

text \<open>One callback of the query listener: the current documents and the changes since the last one.\<close>

record QuerySnapshot =
  docs :: "DocumentSnapshot list"
  snapshot_docChanges :: "DocumentChange list"

datatype error = UpstreamListenerError | ValidationError | OrderingViolation

text \<open>
  What one subscription sees over time. \<open>Next\<close> is an emission of the stream, \<open>Error\<close> ends
  it. \<open>Unstable\<close> and \<open>Stable\<close> are not emissions: they record, at their place in time, the
  host framework raising and clearing one "unstable" marker, which is what the stabilization
  gate looks at.
\<close>

datatype 'a event = Next 'a | Error error | Unstable | Stable

text \<open>
  The query collaborator: what its listener delivers over time to one subscription, and the
  outcome of its one-shot \<^verbatim>\<open>get(options)\<close>.
\<close>

datatype Source = SourceDefault | SourceServer | SourceCache

record Query =
  listener :: "QuerySnapshot event list"
  query_get :: "Source option \<Rightarrow> error + QuerySnapshot"

section \<open>Stream operators\<close>

text \<open>The values a timeline emits, in order.\<close>

fun emissions :: "'a event list \<Rightarrow> 'a list" where
  "emissions [] = []"
| "emissions (Next x # es) = x # emissions es"
| "emissions (Error e # es) = []"
| "emissions (Unstable # es) = emissions es"
| "emissions (Stable # es) = emissions es"

text \<open>\<^verbatim>\<open>map\<close>, \<^verbatim>\<open>filter\<close> and \<^verbatim>\<open>scan\<close> of rxjs/operators. An error ends the stream.\<close>

fun map_op :: "('a \<Rightarrow> 'b) \<Rightarrow> 'a event list \<Rightarrow> 'b event list" where
  "map_op f [] = []"
| "map_op f (Next x # es) = Next (f x) # map_op f es"
| "map_op f (Error e # es) = [Error e]"
| "map_op f (Unstable # es) = Unstable # map_op f es"
| "map_op f (Stable # es) = Stable # map_op f es"

fun filter_op :: "('a \<Rightarrow> bool) \<Rightarrow> 'a event list \<Rightarrow> 'a event list" where
  "filter_op p [] = []"
| "filter_op p (Next x # es) = (if p x then Next x # filter_op p es else filter_op p es)"
| "filter_op p (Error e # es) = [Error e]"
| "filter_op p (Unstable # es) = Unstable # filter_op p es"
| "filter_op p (Stable # es) = Stable # filter_op p es"

fun scan :: "('b \<Rightarrow> 'a \<Rightarrow> 'b) \<Rightarrow> 'b \<Rightarrow> 'a event list \<Rightarrow> 'b event list" where
  "scan f acc [] = []"
| "scan f acc (Next x # es) = Next (f acc x) # scan f (f acc x) es"
| "scan f acc (Error e # es) = [Error e]"
| "scan f acc (Unstable # es) = Unstable # scan f acc es"
| "scan f acc (Stable # es) = Stable # scan f acc es"

text \<open>\<^verbatim>\<open>Array.prototype.indexOf\<close>: the first index of the element, or -1.\<close>

fun indexOf :: "'a list \<Rightarrow> 'a \<Rightarrow> int" where
  "indexOf [] x = -1"
| "indexOf (y # ys) x =
     (if y = x then 0 else (let i = indexOf ys x in if i = -1 then -1 else i + 1))"

section \<open>Collaborators that are not in the source file\<close>

text \<open>
  Modelled from the spec: \<^verbatim>\<open>fromCollectionRef\<close> of \<^verbatim>\<open>../observable/fromRef\<close> is missing. It
  attaches the listener of the query and yields its raw snapshots over time; the scheduler
  argument decides where the work runs, not what is emitted.
\<close>

definition fromCollectionRef :: "Query \<Rightarrow> QuerySnapshot event list" where
  "fromCollectionRef query = map_op (\<lambda>snapshot. snapshot) (listener query)"

text \<open>
  Modelled from the spec: \<^verbatim>\<open>docChanges\<close> of \<^verbatim>\<open>../collection/changes\<close> is missing. The change
  decoder (section 4.1) turns one raw listener delta batch into the ordered sequence of its
  tagged change records, in the order the listener reports them.
\<close>

definition docChanges :: "Query \<Rightarrow> DocumentChangeAction list event list" where
  "docChanges query =
     map_op (\<lambda>action. map (\<lambda>change. \<lparr>type = change_type change, payload = change\<rparr>)
                          (snapshot_docChanges action))
       (fromCollectionRef query)"

text \<open>
  Modelled from the spec: \<^verbatim>\<open>keepUnstableUntilFirst\<close> of the \<^verbatim>\<open>AngularFirestore\<close> service is
  missing. The stabilization gate (sections 4.4, 8 and 9) is a counter of outstanding
  "unstable" markers and a single-slot buffer: the first emission is held while a marker is
  outstanding, a later emission that arrives while it is held takes its place in the slot,
  the buffered emission is delivered when the last marker clears, and from then on the
  stream passes through unmodified. \<open>gate n buf\<close> is the gate before the first delivery,
  with \<open>n\<close> markers outstanding and \<open>buf\<close> in the slot.
\<close>

fun gate :: "nat \<Rightarrow> 'a option \<Rightarrow> 'a event list \<Rightarrow> 'a event list" where
  "gate n buf [] = []"
| "gate n buf (Next x # es) = (if n = 0 then Next x # es else gate n (Some x) es)"
| "gate n buf (Error e # es) = [Error e]"
| "gate n buf (Unstable # es) = Unstable # gate (Suc n) buf es"
| "gate n buf (Stable # es) =
     (case buf of
        None \<Rightarrow> Stable # gate (n - 1) None es
      | Some x \<Rightarrow> if n - 1 = 0 then Stable # Next x # es else Stable # gate (n - 1) (Some x) es)"

definition keepUnstableUntilFirst :: "'a event list \<Rightarrow> 'a event list" where
  "keepUnstableUntilFirst obs = gate 0 None obs"

section \<open>The facade\<close>

text \<open>
  \<^verbatim>\<open>stateChanges(events?)\<close>, lines 46 to 58. \<^verbatim>\<open>!events\<close> holds for an omitted argument
  (\<open>None\<close>); an empty array is tested by its length.
\<close>

definition stateChanges :: "string list option \<Rightarrow> Query \<Rightarrow> DocumentChangeAction list event list" where
  "stateChanges events query =
     (case events of
        None \<Rightarrow> keepUnstableUntilFirst (docChanges query)
      | Some evs \<Rightarrow>
          if length evs = 0 then keepUnstableUntilFirst (docChanges query)
          else keepUnstableUntilFirst
                 (filter_op (\<lambda>changes. length changes > 0)
                    (map_op (\<lambda>actions. filter (\<lambda>change. indexOf evs (type_name (type change)) > -1) actions)
                       (docChanges query))))"

text \<open>\<^verbatim>\<open>auditTrail(events?)\<close>, lines 65 to 67: \<^verbatim>\<open>scan\<close> with seed \<^verbatim>\<open>[]\<close> over \<^verbatim>\<open>stateChanges\<close>.\<close>

definition auditTrail :: "string list option \<Rightarrow> Query \<Rightarrow> DocumentChangeAction list event list" where
  "auditTrail events query =
     scan (\<lambda>current action. current @ action) [] (stateChanges events query)"

text \<open>
  Modelled from the spec: \<^verbatim>\<open>validateEventsArray\<close> of \<^verbatim>\<open>../collection/collection\<close> is
  missing. Section 6: the values must be drawn from the three event kinds or the argument be
  absent or empty; section 7: otherwise a \<open>ValidationError\<close> is raised synchronously. An
  absent argument is validated to the empty list, which means "all kinds" (section 4.2).
\<close>

definition recognized :: "string \<Rightarrow> bool" where
  "recognized e = (e \<in> set [''added'', ''modified'', ''removed''])"

fun all_recognized :: "string list \<Rightarrow> bool" where
  "all_recognized [] = True"
| "all_recognized (e # es) = (if recognized e then all_recognized es else False)"

fun validateEventsArray :: "string list option \<Rightarrow> error + string list" where
  "validateEventsArray None = Inr []"
| "validateEventsArray (Some evs) = (if all_recognized evs then Inr evs else Inl ValidationError)"

text \<open>
  Modelled from the spec: \<^verbatim>\<open>sortedChanges\<close> of \<^verbatim>\<open>../collection/changes\<close> is missing. The
  sorted projection maintainer (section 4.3) keeps an index-addressed ordered sequence of
  documents. An index outside the bounds of the current projection is an
  \<open>OrderingViolation\<close> (section 7), which ends the stream.
\<close>

fun delete_at :: "nat \<Rightarrow> 'a list \<Rightarrow> error + 'a list" where
  "delete_at i [] = Inl OrderingViolation"
| "delete_at 0 (x # xs) = Inr xs"
| "delete_at (Suc i) (x # xs) =
     (case delete_at i xs of Inl e \<Rightarrow> Inl e | Inr ys \<Rightarrow> Inr (x # ys))"

fun insert_at :: "nat \<Rightarrow> 'a \<Rightarrow> 'a list \<Rightarrow> error + 'a list" where
  "insert_at 0 y xs = Inr (y # xs)"
| "insert_at (Suc i) y [] = Inl OrderingViolation"
| "insert_at (Suc i) y (x # xs) =
     (case insert_at i y xs of Inl e \<Rightarrow> Inl e | Inr ys \<Rightarrow> Inr (x # ys))"

fun replace_at :: "nat \<Rightarrow> 'a \<Rightarrow> 'a list \<Rightarrow> error + 'a list" where
  "replace_at i y [] = Inl OrderingViolation"
| "replace_at 0 y (x # xs) = Inr (y # xs)"
| "replace_at (Suc i) y (x # xs) =
     (case replace_at i y xs of Inl e \<Rightarrow> Inl e | Inr ys \<Rightarrow> Inr (x # ys))"

text \<open>
  Step 2 of section 4.3, one change record. The indices are integers and -1 means "not
  present", so a negative index where a position is needed is out of bounds.
\<close>

definition combineChange :: "DocumentSnapshot list \<Rightarrow> DocumentChange \<Rightarrow> error + DocumentSnapshot list" where
  "combineChange combined change =
     (case change_type change of
        Removed \<Rightarrow>
          if oldIndex change < 0 then Inl OrderingViolation
          else delete_at (nat (oldIndex change)) combined
      | Added \<Rightarrow>
          if newIndex change < 0 then Inl OrderingViolation
          else insert_at (nat (newIndex change)) (doc change) combined
      | Modified \<Rightarrow>
          if oldIndex change < 0 \<or> newIndex change < 0 then Inl OrderingViolation
          else if oldIndex change = newIndex change
          then replace_at (nat (newIndex change)) (doc change) combined
          else (case delete_at (nat (oldIndex change)) combined of
                  Inl e \<Rightarrow> Inl e
                | Inr deleted \<Rightarrow> insert_at (nat (newIndex change)) (doc change) deleted))"

text \<open>Steps 2 and 3: the records of a batch, strictly in the order given.\<close>

fun combineChanges :: "DocumentSnapshot list \<Rightarrow> DocumentChange list \<Rightarrow> error + DocumentSnapshot list" where
  "combineChanges current [] = Inr current"
| "combineChanges current (change # changes) =
     (case combineChange current change of
        Inl e \<Rightarrow> Inl e
      | Inr combined \<Rightarrow> combineChanges combined changes)"

text \<open>
  Step 4: a batch leads to an emission of the projection when the requested kinds intersect
  it; as in section 4.2, no requested kind means that every batch is emitted.
\<close>

definition requested_batch :: "string list \<Rightarrow> DocumentChange list \<Rightarrow> bool" where
  "requested_batch events changes =
     (events = [] \<or> list_ex (\<lambda>change. indexOf events (type_name (change_type change)) > -1) changes)"

fun project :: "string list \<Rightarrow> DocumentSnapshot list \<Rightarrow> QuerySnapshot event list
    \<Rightarrow> DocumentSnapshot list event list" where
  "project events current [] = []"
| "project events current (Next snapshot # es) =
     (case combineChanges current (snapshot_docChanges snapshot) of
        Inl e \<Rightarrow> [Error e]
      | Inr combined \<Rightarrow>
          if requested_batch events (snapshot_docChanges snapshot)
          then Next combined # project events combined es
          else project events combined es)"
| "project events current (Error e # es) = [Error e]"
| "project events current (Unstable # es) = Unstable # project events current es"
| "project events current (Stable # es) = Stable # project events current es"

definition sortedChanges :: "Query \<Rightarrow> string list \<Rightarrow> DocumentSnapshot list event list" where
  "sortedChanges query events = project events [] (fromCollectionRef query)"

text \<open>
  \<^verbatim>\<open>snapshotChanges(events?)\<close>, lines 74 to 80. The validation runs first; when it throws, the
  call has no observable to return.
\<close>

definition snapshotChanges :: "string list option \<Rightarrow> Query \<Rightarrow> error + DocumentSnapshot list event list" where
  "snapshotChanges events query =
     (case validateEventsArray events of
        Inl e \<Rightarrow> Inl e
      | Inr validatedEvents \<Rightarrow>
          Inr (keepUnstableUntilFirst (sortedChanges query validatedEvents)))"

text \<open>
  \<^verbatim>\<open>valueChanges(options)\<close>, lines 89 to 107. \<^verbatim>\<open>if (options.idField)\<close> tests the value for
  truthiness: it fails for a missing \<^verbatim>\<open>idField\<close> and for the empty string. The object
  spread copies the fields of \<^verbatim>\<open>a.data()\<close> and then sets the field named by \<^verbatim>\<open>idField\<close>.
\<close>

record Options =
  idField :: "string option"

definition withId :: "Options \<Rightarrow> DocumentSnapshot \<Rightarrow> DocumentData" where
  "withId options a =
     (case idField options of
        None \<Rightarrow> data a
      | Some k \<Rightarrow> if k \<noteq> [] then (data a)(k \<mapsto> VString (id a)) else data a)"

definition valueChanges :: "Options \<Rightarrow> Query \<Rightarrow> DocumentData list event list" where
  "valueChanges options query =
     keepUnstableUntilFirst
       (map_op (\<lambda>actions. map (withId options) (docs actions)) (fromCollectionRef query))"

text \<open>
  \<^verbatim>\<open>get(options?)\<close>, lines 113 to 117: \<^verbatim>\<open>from\<close> turns the promise of \<^verbatim>\<open>query.get\<close> into a
  stream of its one outcome, and \<^verbatim>\<open>observeOn\<close> hands every notification to a scheduler.
\<close>

datatype scheduler = OutsideAngular | InsideAngular

definition from_promise :: "error + 'a \<Rightarrow> 'a event list" where
  "from_promise outcome = (case outcome of Inl e \<Rightarrow> [Error e] | Inr v \<Rightarrow> [Next v])"

definition observeOn :: "scheduler \<Rightarrow> 'a event list \<Rightarrow> (scheduler \<times> 'a event) list" where
  "observeOn s es = map (\<lambda>e. (s, e)) es"

definition get :: "Source option \<Rightarrow> Query \<Rightarrow> (scheduler \<times> QuerySnapshot event) list" where
  "get options query = observeOn InsideAngular (from_promise (query_get query options))"

section \<open>Observations on timelines\<close>

text \<open>The number of markers outstanding after a timeline, as the gate counts them.\<close>

fun outstanding :: "nat \<Rightarrow> 'a event list \<Rightarrow> nat" where
  "outstanding n [] = n"
| "outstanding n (Unstable # es) = outstanding (Suc n) es"
| "outstanding n (Stable # es) = outstanding (n - 1) es"
| "outstanding n (e # es) = outstanding n es"

text \<open>
  \<open>first_when_stable n es\<close>: on the timeline \<open>es\<close>, begun with \<open>n\<close> markers outstanding, the
  first emission (if there is one) happens at a moment when no marker is outstanding.
\<close>

fun first_when_stable :: "nat \<Rightarrow> 'a event list \<Rightarrow> bool" where
  "first_when_stable n [] = True"
| "first_when_stable n (Next x # es) = (n = 0)"
| "first_when_stable n (Error e # es) = True"
| "first_when_stable n (Unstable # es) = first_when_stable (Suc n) es"
| "first_when_stable n (Stable # es) = first_when_stable (n - 1) es"

text \<open>The markers of a timeline, in place, without its emissions.\<close>

fun markers :: "'a event list \<Rightarrow> 'b event list" where
  "markers [] = []"
| "markers (Next x # es) = markers es"
| "markers (Error e # es) = markers es"
| "markers (Unstable # es) = Unstable # markers es"
| "markers (Stable # es) = Stable # markers es"

fun failed :: "'a event list \<Rightarrow> bool" where
  "failed [] = False"
| "failed (Error e # es) = True"
| "failed (Next x # es) = failed es"
| "failed (Unstable # es) = failed es"
| "failed (Stable # es) = failed es"

text \<open>
  \<open>unsettled n es\<close>: on the timeline \<open>es\<close>, begun with \<open>n\<close> markers outstanding, a marker is
  outstanding after every clearing. \<open>holding n es\<close>: the first emission of \<open>es\<close> (if there is
  one) arrives while a marker is outstanding, and from then on the timeline is unsettled.
  These read the computed stream, before the gate.
\<close>

fun unsettled :: "nat \<Rightarrow> 'a event list \<Rightarrow> bool" where
  "unsettled n [] = True"
| "unsettled n (Next x # es) = unsettled n es"
| "unsettled n (Error e # es) = unsettled n es"
| "unsettled n (Unstable # es) = unsettled (Suc n) es"
| "unsettled n (Stable # es) = (0 < n - 1 \<and> unsettled (n - 1) es)"

fun holding :: "nat \<Rightarrow> 'a event list \<Rightarrow> bool" where
  "holding n [] = True"
| "holding n (Next x # es) = (0 < n \<and> unsettled n es)"
| "holding n (Error e # es) = holding n es"
| "holding n (Unstable # es) = holding (Suc n) es"
| "holding n (Stable # es) = holding (n - 1) es"

text \<open>
  The stabilization gate in the words of sections 4.4 and 8 of the specification, as a
  relation between the stream a view computes and the stream its consumer is delivered;
  \<open>after\<close> is what the view does to the stream behind the gate (nothing, or the accumulation
  of the audit trail). While the first emission is held, only the markers go by. When the
  last outstanding marker clears while emissions are held, exactly one of them, the latest,
  is delivered at that moment, and what follows passes through. A first emission that
  arrives with no marker outstanding is delivered at once, and what follows passes through.
\<close>

definition stabilizes :: "('a event list \<Rightarrow> 'b event list) \<Rightarrow> 'a event list \<Rightarrow> 'b event list \<Rightarrow> bool" where
  "stabilizes after computed delivered =
     ((holding 0 computed \<and> \<not> failed computed \<longrightarrow> delivered = markers computed)
      \<and> (\<forall>held rest.
            computed = held @ Stable # rest \<and> holding 0 held \<and> \<not> failed held
              \<and> emissions held \<noteq> [] \<and> outstanding 0 held = 1
            \<longrightarrow> delivered = markers held @ Stable # after (Next (last (emissions held)) # rest))
      \<and> (\<forall>quiet x rest.
            computed = quiet @ Next x # rest \<and> emissions quiet = [] \<and> \<not> failed quiet
              \<and> outstanding 0 quiet = 0
            \<longrightarrow> delivered = markers quiet @ after (Next x # rest)))"

section \<open>Example data\<close>

definition D1 :: DocumentSnapshot where
  "D1 = \<lparr>id = ''d1'', data = [''name'' \<mapsto> VString ''one'']\<rparr>"

definition D2 :: DocumentSnapshot where
  "D2 = \<lparr>id = ''d2'', data = [''name'' \<mapsto> VString ''two'', ''key'' \<mapsto> VNumber 7]\<rparr>"

definition added :: "DocumentSnapshot \<Rightarrow> int \<Rightarrow> DocumentChange" where
  "added d new = \<lparr>change_type = Added, doc = d, oldIndex = -1, newIndex = new\<rparr>"

definition modified :: "DocumentSnapshot \<Rightarrow> int \<Rightarrow> int \<Rightarrow> DocumentChange" where
  "modified d old new = \<lparr>change_type = Modified, doc = d, oldIndex = old, newIndex = new\<rparr>"

definition removed :: "DocumentSnapshot \<Rightarrow> int \<Rightarrow> DocumentChange" where
  "removed d old = \<lparr>change_type = Removed, doc = d, oldIndex = old, newIndex = -1\<rparr>"

definition action :: "DocumentChange \<Rightarrow> DocumentChangeAction" where
  "action change = \<lparr>type = change_type change, payload = change\<rparr>"

text \<open>
  The batch that adds the documents \<open>ds\<close> at the increasing indices 0, 1, ..., and the batch
  that removes them in reverse index order.
\<close>

definition add_all :: "DocumentSnapshot list \<Rightarrow> DocumentChange list" where
  "add_all ds = map (\<lambda>i. added (ds ! i) (int i)) [0..<length ds]"

definition remove_all_reversed :: "DocumentSnapshot list \<Rightarrow> DocumentChange list" where
  "remove_all_reversed ds = map (\<lambda>i. removed (ds ! i) (int i)) (rev [0..<length ds])"

text \<open>A query whose listener delivers the given timeline and whose one-shot fetch succeeds.\<close>

definition query_of :: "QuerySnapshot event list \<Rightarrow> Query" where
  "query_of es = \<lparr>listener = es, query_get = (\<lambda>options. Inr \<lparr>docs = [D1], snapshot_docChanges = [added D1 0]\<rparr>)\<rparr>"

section \<open>Unfolding the examples and the facade\<close>

lemmas example_defs = D1_def D2_def added_def modified_def removed_def action_def query_of_def

lemmas facade_defs = stateChanges_def auditTrail_def docChanges_def fromCollectionRef_def
  keepUnstableUntilFirst_def

section \<open>Properties of the operators\<close>

lemma indexOf_ge: "- 1 \<le> indexOf xs x"
  by (induction xs) (auto simp: Let_def)

lemma indexOf_found: "(indexOf xs x > -1) = (x \<in> set xs)"
proof (induction xs)
  case Nil
  show ?case by simp
next
  case (Cons y ys)
  have "- 1 \<le> indexOf ys x" by (rule indexOf_ge)
  with Cons show ?case by (auto simp: Let_def)
qed

lemma emissions_map_op: "emissions (map_op f es) = map f (emissions es)"
  by (induction f es rule: map_op.induct) simp_all

lemma emissions_filter_op: "emissions (filter_op p es) = filter p (emissions es)"
  by (induction p es rule: filter_op.induct) simp_all

lemma gate_emits_subset:
  "set (emissions (gate n buf es)) \<subseteq> set (emissions es) \<union> set_option buf"
proof (induction n buf es rule: gate.induct)
  case (5 n buf es)
  then show ?case by (cases buf) (auto split: if_splits)
qed auto

lemma keepUnstableUntilFirst_subset:
  "set (emissions (keepUnstableUntilFirst es)) \<subseteq> set (emissions es)"
  using gate_emits_subset [of 0 None es] by (simp add: keepUnstableUntilFirst_def)

section \<open>Filtering by event kind\<close>

text \<open>What the filtered path of \<open>stateChanges\<close> can emit: a decoded batch, filtered, and not empty.\<close>

lemma stateChanges_emitted:
  assumes "evs \<noteq> []"
    and "batch \<in> set (emissions (stateChanges (Some evs) query))"
  shows "\<exists>raw. batch = filter (\<lambda>change. indexOf evs (type_name (type change)) > -1) raw
               \<and> batch \<noteq> []"
proof -
  let ?keep = "\<lambda>change. indexOf evs (type_name (type change)) > -1"
  let ?src = "filter_op (\<lambda>changes. length changes > 0) (map_op (filter ?keep) (docChanges query))"
  from assms have "batch \<in> set (emissions (keepUnstableUntilFirst ?src))"
    by (simp add: stateChanges_def)
  with keepUnstableUntilFirst_subset [of ?src] have "batch \<in> set (emissions ?src)"
    by blast
  then show ?thesis
    by (auto simp: emissions_filter_op emissions_map_op)
qed

text \<open>
  C3. With a non-empty list of requested event kinds, every batch that \<open>stateChanges\<close> emits
  holds only changes whose type is one of the requested kinds, and no emitted batch is empty.
\<close>

theorem stateChanges_filtered:
  assumes "evs \<noteq> []"
    and "batch \<in> set (emissions (stateChanges (Some evs) query))"
  shows "batch \<noteq> [] \<and> (\<forall>change \<in> set batch. type_name (type change) \<in> set evs)"
proof -
  from stateChanges_emitted [OF assms] obtain raw
    where "batch = filter (\<lambda>change. indexOf evs (type_name (type change)) > -1) raw"
      and "batch \<noteq> []"
    by blast
  then show ?thesis by (auto simp: indexOf_found)
qed

text \<open>C3 at a batch of one addition and one removal, with only additions requested.\<close>

theorem stateChanges_filtered_witness:
  "[''added''] \<noteq> []
   \<and> [action (added D1 0)] \<in> set (emissions (stateChanges (Some [''added''])
         (query_of [Next \<lparr>docs = [D1], snapshot_docChanges = [added D1 0, removed D2 1]\<rparr>])))
   \<and> [action (added D1 0)] \<noteq> []
   \<and> type_name (type (action (added D1 0))) \<in> set [''added'']"
proof -
  have mem: "[action (added D1 0)] \<in> set (emissions (stateChanges (Some [''added''])
         (query_of [Next \<lparr>docs = [D1], snapshot_docChanges = [added D1 0, removed D2 1]\<rparr>])))"
    by (simp add: facade_defs example_defs)
  have ne: "[''added''] \<noteq> []" by simp
  from stateChanges_filtered [OF ne mem] mem show ?thesis by simp
qed

section \<open>The default event kinds\<close>

text \<open>
  C4, as stated, fails: a decoded batch without changes (a snapshot that only reports a change
  of metadata, or the first snapshot of an empty result set) is emitted when the event kinds
  are omitted and dropped when all three kinds are requested.
\<close>

theorem stateChanges_default_full_counterexample:
  "emissions (stateChanges None (query_of [Next \<lparr>docs = [], snapshot_docChanges = []\<rparr>]))
   \<noteq> emissions (stateChanges (Some [''added'', ''modified'', ''removed''])
        (query_of [Next \<lparr>docs = [], snapshot_docChanges = []\<rparr>]))"
  by (simp add: facade_defs example_defs)

text \<open>Mapping and filtering a stream with functions that change none of its emissions.\<close>

lemma filter_map_op_id:
  "(\<And>x. x \<in> set (emissions es) \<Longrightarrow> g (f x) = f x)
   \<Longrightarrow> (\<And>x. x \<in> set (emissions es) \<Longrightarrow> p (f x))
   \<Longrightarrow> filter_op p (map_op g (map_op f es)) = map_op f es"
proof (induction f es rule: map_op.induct)
  case (2 f x es)
  have "g (f x) = f x" "p (f x)" using 2(2,3) by simp_all
  moreover have "filter_op p (map_op g (map_op f es)) = map_op f es"
    using 2 by simp
  ultimately show ?case by simp
qed simp_all

lemma type_name_recognized: "type_name t \<in> {''added'', ''modified'', ''removed''}"
  by (cases t) simp_all

text \<open>
  C4, amended. When no decoded batch of the listener is empty, \<open>stateChanges\<close> called with
  the event kinds omitted, or with the empty list, yields exactly the stream of
  \<open>stateChanges\<close> called with a list of all three kinds.
\<close>

theorem stateChanges_default_full:
  assumes "\<forall>snapshot \<in> set (emissions (listener query)). snapshot_docChanges snapshot \<noteq> []"
    and "set full = {''added'', ''modified'', ''removed''}"
  shows "stateChanges None query = stateChanges (Some full) query
         \<and> stateChanges (Some []) query = stateChanges (Some full) query"
proof -
  let ?keep = "\<lambda>change :: DocumentChangeAction. indexOf full (type_name (type change)) > -1"
  let ?decode = "\<lambda>action. map (\<lambda>change. \<lparr>type = change_type change, payload = change\<rparr>)
                          (snapshot_docChanges action)"
  have keep: "?keep change" for change :: DocumentChangeAction
    using type_name_recognized [of "type change"] assms(2) by (simp add: indexOf_found)
  have nonempty: "snapshot_docChanges x \<noteq> []" if "x \<in> set (emissions (fromCollectionRef query))" for x
    using that assms(1) by (simp add: fromCollectionRef_def emissions_map_op)
  have same: "filter_op (\<lambda>changes. length changes > 0) (map_op (filter ?keep) (map_op ?decode (fromCollectionRef query)))
        = map_op ?decode (fromCollectionRef query)"
  proof (rule filter_map_op_id)
    fix x assume "x \<in> set (emissions (fromCollectionRef query))"
    show "filter ?keep (?decode x) = ?decode x"
      by (rule filter_True) (simp add: keep)
  next
    fix x assume "x \<in> set (emissions (fromCollectionRef query))"
    then show "0 < length (?decode x)"
      using nonempty by simp
  qed
  from assms(2) have ne: "full \<noteq> []" by (cases full) simp_all
  have full: "stateChanges (Some full) query = keepUnstableUntilFirst (docChanges query)"
    unfolding stateChanges_def docChanges_def using ne same by simp
  have "stateChanges None query = keepUnstableUntilFirst (docChanges query)"
    and "stateChanges (Some []) query = keepUnstableUntilFirst (docChanges query)"
    by (simp_all add: stateChanges_def)
  with full show ?thesis by simp
qed

text \<open>C4, amended, at a single addition that arrives while a marker is outstanding.\<close>

theorem stateChanges_default_full_witness:
  "emissions (listener (query_of [Unstable, Next \<lparr>docs = [D1], snapshot_docChanges = [added D1 0]\<rparr>, Stable]))
     = [\<lparr>docs = [D1], snapshot_docChanges = [added D1 0]\<rparr>]
   \<and> set [''added'', ''modified'', ''removed''] = {''added'', ''modified'', ''removed''}
   \<and> stateChanges None (query_of [Unstable, Next \<lparr>docs = [D1], snapshot_docChanges = [added D1 0]\<rparr>, Stable])
     = stateChanges (Some [''added'', ''modified'', ''removed''])
         (query_of [Unstable, Next \<lparr>docs = [D1], snapshot_docChanges = [added D1 0]\<rparr>, Stable])
   \<and> stateChanges None (query_of [Unstable, Next \<lparr>docs = [D1], snapshot_docChanges = [added D1 0]\<rparr>, Stable])
     = [Unstable, Stable, Next [action (added D1 0)]]"
proof -
  have h1: "\<forall>snapshot \<in> set (emissions (listener (query_of [Unstable, Next \<lparr>docs = [D1], snapshot_docChanges = [added D1 0]\<rparr>, Stable]))).
       snapshot_docChanges snapshot \<noteq> []"
    by (simp add: example_defs)
  have h2: "set [''added'', ''modified'', ''removed''] = {''added'', ''modified'', ''removed''}"
    by simp
  have v: "stateChanges None (query_of [Unstable, Next \<lparr>docs = [D1], snapshot_docChanges = [added D1 0]\<rparr>, Stable])
     = [Unstable, Stable, Next [action (added D1 0)]]"
    by (simp add: facade_defs example_defs)
  from stateChanges_default_full [OF h1 h2] have
    "stateChanges None (query_of [Unstable, Next \<lparr>docs = [D1], snapshot_docChanges = [added D1 0]\<rparr>, Stable])
     = stateChanges (Some [''added'', ''modified'', ''removed''])
         (query_of [Unstable, Next \<lparr>docs = [D1], snapshot_docChanges = [added D1 0]\<rparr>, Stable])"
    by (rule conjunct1)
  moreover have "emissions (listener (query_of [Unstable, Next \<lparr>docs = [D1], snapshot_docChanges = [added D1 0]\<rparr>, Stable]))
     = [\<lparr>docs = [D1], snapshot_docChanges = [added D1 0]\<rparr>]"
    by (simp add: query_of_def)
  ultimately show ?thesis using h2 v by blast
qed

section \<open>The audit trail\<close>

lemma length_emissions_scan: "length (emissions (scan f acc es)) = length (emissions es)"
  by (induction f acc es rule: scan.induct) simp_all

lemma emissions_scan_append:
  "n < length (emissions es)
   \<Longrightarrow> emissions (scan (\<lambda>current action. current @ action) acc es) ! n
       = acc @ concat (take (Suc n) (emissions es))"
proof (induction es arbitrary: acc n)
  case Nil
  then show ?case by simp
next
  case (Cons e es)
  show ?case
  proof (cases e)
    case (Next x)
    show ?thesis
    proof (cases n)
      case 0
      with Next show ?thesis by simp
    next
      case (Suc m)
      with Cons.prems Next have "m < length (emissions es)" by simp
      from Cons.IH [OF this, of "acc @ x"] Next Suc show ?thesis by simp
    qed
  next
    case (Error err)
    with Cons.prems show ?thesis by simp
  next
    case Unstable
    with Cons show ?thesis by simp
  next
    case Stable
    with Cons show ?thesis by simp
  qed
qed

text \<open>
  C5. The audit trail emits once for every batch that \<open>stateChanges\<close> emits, its N-th
  emission is the concatenation of the first N batches in arrival order, and each emission
  extends the one before it.
\<close>

theorem auditTrail_accumulates:
  "length (emissions (auditTrail events query)) = length (emissions (stateChanges events query))
   \<and> (\<forall>N. 0 < N \<and> N \<le> length (emissions (stateChanges events query))
        \<longrightarrow> emissions (auditTrail events query) ! (N - 1)
            = concat (take N (emissions (stateChanges events query))))
   \<and> (\<forall>N. 1 < N \<and> N \<le> length (emissions (stateChanges events query))
        \<longrightarrow> prefix (emissions (auditTrail events query) ! (N - 2))
                   (emissions (auditTrail events query) ! (N - 1)))"
proof -
  let ?bs = "emissions (stateChanges events query)"
  let ?as = "emissions (auditTrail events query)"
  have len: "length ?as = length ?bs"
    by (simp add: auditTrail_def length_emissions_scan)
  have nth: "?as ! (N - 1) = concat (take N ?bs)" if "0 < N" "N \<le> length ?bs" for N
  proof -
    from that have "N - 1 < length ?bs" by simp
    from emissions_scan_append [OF this, of "[]"] that show ?thesis
      by (simp add: auditTrail_def)
  qed
  have ext: "prefix (?as ! (N - 2)) (?as ! (N - 1))" if "1 < N" "N \<le> length ?bs" for N
  proof -
    from that have a: "?as ! (N - 1) = concat (take N ?bs)" by (intro nth) simp_all
    from that have "?as ! ((N - 1) - 1) = concat (take (N - 1) ?bs)" by (intro nth) simp_all
    then have b: "?as ! (N - 2) = concat (take (N - 1) ?bs)"
      by (simp add: numeral_2_eq_2)
    from that have "take (Suc (N - 1)) ?bs = take (N - 1) ?bs @ [?bs ! (N - 1)]"
      by (intro take_Suc_conv_app_nth) simp
    with that have "take N ?bs = take (N - 1) ?bs @ [?bs ! (N - 1)]" by simp
    then have "concat (take N ?bs) = concat (take (N - 1) ?bs) @ ?bs ! (N - 1)" by simp
    with a b show ?thesis by simp
  qed
  from len nth ext show ?thesis by blast
qed

text \<open>C5 at two batches: the second emission is both batches, and extends the first.\<close>

theorem auditTrail_accumulates_witness:
  "emissions (stateChanges None (query_of
      [Next \<lparr>docs = [D1], snapshot_docChanges = [added D1 0]\<rparr>,
       Next \<lparr>docs = [D1, D2], snapshot_docChanges = [added D2 1]\<rparr>]))
     = [[action (added D1 0)], [action (added D2 1)]]
   \<and> emissions (auditTrail None (query_of
      [Next \<lparr>docs = [D1], snapshot_docChanges = [added D1 0]\<rparr>,
       Next \<lparr>docs = [D1, D2], snapshot_docChanges = [added D2 1]\<rparr>])) ! (2 - 1)
     = [action (added D1 0), action (added D2 1)]
   \<and> prefix (emissions (auditTrail None (query_of
      [Next \<lparr>docs = [D1], snapshot_docChanges = [added D1 0]\<rparr>,
       Next \<lparr>docs = [D1, D2], snapshot_docChanges = [added D2 1]\<rparr>])) ! (2 - 2))
        (emissions (auditTrail None (query_of
      [Next \<lparr>docs = [D1], snapshot_docChanges = [added D1 0]\<rparr>,
       Next \<lparr>docs = [D1, D2], snapshot_docChanges = [added D2 1]\<rparr>])) ! (2 - 1))"
proof -
  let ?q = "query_of
      [Next \<lparr>docs = [D1], snapshot_docChanges = [added D1 0]\<rparr>,
       Next \<lparr>docs = [D1, D2], snapshot_docChanges = [added D2 1]\<rparr>]"
  have bs: "emissions (stateChanges None ?q) = [[action (added D1 0)], [action (added D2 1)]]"
    by (simp add: facade_defs example_defs)
  have h1: "0 < (2::nat) \<and> 2 \<le> length (emissions (stateChanges None ?q))"
    and h2: "1 < (2::nat) \<and> 2 \<le> length (emissions (stateChanges None ?q))"
    by (simp_all add: bs)
  from auditTrail_accumulates [of None ?q] h1
  have "emissions (auditTrail None ?q) ! (2 - 1) = concat (take 2 (emissions (stateChanges None ?q)))"
    by blast
  then have a: "emissions (auditTrail None ?q) ! (2 - 1) = [action (added D1 0), action (added D2 1)]"
    by (simp add: bs)
  from auditTrail_accumulates [of None ?q] h2
  have "prefix (emissions (auditTrail None ?q) ! (2 - 2)) (emissions (auditTrail None ?q) ! (2 - 1))"
    by blast
  with bs a show ?thesis by blast
qed

section \<open>Plain values\<close>

lemma gate_emits_of_source:
  "x \<in> set (emissions (keepUnstableUntilFirst (map_op f es)))
   \<Longrightarrow> \<exists>y \<in> set (emissions es). x = f y"
  using keepUnstableUntilFirst_subset [of "map_op f es"]
  by (auto simp: emissions_map_op)

text \<open>
  C7, as stated, fails at the empty string: \<^verbatim>\<open>valueChanges({idField: ''})\<close> emits the data of
  the document unmodified, without a field named by the empty string.
\<close>

theorem valueChanges_idField_counterexample:
  "emissions (valueChanges \<lparr>idField = Some ''''\<rparr>
      (query_of [Next \<lparr>docs = [D1], snapshot_docChanges = [added D1 0]\<rparr>])) = [[data D1]]
   \<and> data D1 \<noteq> (data D1)('''' \<mapsto> VString (id D1))"
proof -
  have "data D1 '''' \<noteq> ((data D1)('''' \<mapsto> VString (id D1))) ''''"
    by (simp add: D1_def)
  then have "data D1 \<noteq> (data D1)('''' \<mapsto> VString (id D1))"
    by metis
  then show ?thesis
    by (simp add: valueChanges_def withId_def facade_defs query_of_def)
qed

text \<open>
  C7, amended. Every emission of \<open>valueChanges\<close> is made of the documents of one snapshot of
  the listener, in order. With a non-empty \<open>idField\<close> each payload is the data of its
  document with the field named \<open>idField\<close> set to the id of the document, whatever the data
  held under that name, and every other field as in the data. With \<open>idField\<close> not given, or
  the empty string, each payload is the data of its document.
\<close>

theorem valueChanges_idField:
  assumes "payloads \<in> set (emissions (valueChanges options query))"
  shows "\<exists>snapshot \<in> set (emissions (listener query)).
           length payloads = length (docs snapshot)
           \<and> (\<forall>i < length payloads.
                (\<forall>k. idField options = Some k \<and> k \<noteq> []
                   \<longrightarrow> payloads ! i = (data (docs snapshot ! i))(k \<mapsto> VString (id (docs snapshot ! i)))
                     \<and> (payloads ! i) k = Some (VString (id (docs snapshot ! i)))
                     \<and> (\<forall>field. field \<noteq> k \<longrightarrow> (payloads ! i) field = data (docs snapshot ! i) field))
                \<and> (idField options = None \<or> idField options = Some []
                   \<longrightarrow> payloads ! i = data (docs snapshot ! i)))"
proof -
  from assms obtain snapshot where
    snap: "snapshot \<in> set (emissions (fromCollectionRef query))"
    and payloads: "payloads = map (withId options) (docs snapshot)"
    unfolding valueChanges_def by (blast dest: gate_emits_of_source)
  from snap have "snapshot \<in> set (emissions (listener query))"
    by (simp add: fromCollectionRef_def emissions_map_op)
  moreover have "length payloads = length (docs snapshot)"
    by (simp add: payloads)
  moreover have "\<forall>i < length payloads.
                (\<forall>k. idField options = Some k \<and> k \<noteq> []
                   \<longrightarrow> payloads ! i = (data (docs snapshot ! i))(k \<mapsto> VString (id (docs snapshot ! i)))
                     \<and> (payloads ! i) k = Some (VString (id (docs snapshot ! i)))
                     \<and> (\<forall>field. field \<noteq> k \<longrightarrow> (payloads ! i) field = data (docs snapshot ! i) field))
                \<and> (idField options = None \<or> idField options = Some []
                   \<longrightarrow> payloads ! i = data (docs snapshot ! i))"
    by (auto simp: payloads withId_def)
  ultimately show ?thesis by blast
qed

text \<open>C7, amended, at a document whose data already has a field \<open>name\<close>.\<close>

theorem valueChanges_idField_witness:
  "emissions (valueChanges \<lparr>idField = Some ''name''\<rparr>
      (query_of [Next \<lparr>docs = [D1], snapshot_docChanges = [added D1 0]\<rparr>]))
     = [[[''name'' \<mapsto> VString ''d1'']]]
   \<and> emissions (valueChanges \<lparr>idField = None\<rparr>
      (query_of [Next \<lparr>docs = [D1], snapshot_docChanges = [added D1 0]\<rparr>]))
     = [[[''name'' \<mapsto> VString ''one'']]]"
proof -
  let ?q = "query_of [Next \<lparr>docs = [D1], snapshot_docChanges = [added D1 0]\<rparr>]"
  have l: "emissions (listener ?q) = [\<lparr>docs = [D1], snapshot_docChanges = [added D1 0]\<rparr>]"
    by (simp add: query_of_def)
  have e1: "emissions (valueChanges \<lparr>idField = Some ''name''\<rparr> ?q) = [[withId \<lparr>idField = Some ''name''\<rparr> D1]]"
    and e2: "emissions (valueChanges \<lparr>idField = None\<rparr> ?q) = [[withId \<lparr>idField = None\<rparr> D1]]"
    by (simp_all add: valueChanges_def facade_defs query_of_def)
  have m1: "[withId \<lparr>idField = Some ''name''\<rparr> D1] \<in> set (emissions (valueChanges \<lparr>idField = Some ''name''\<rparr> ?q))"
    and m2: "[withId \<lparr>idField = None\<rparr> D1] \<in> set (emissions (valueChanges \<lparr>idField = None\<rparr> ?q))"
    by (simp_all add: e1 e2)
  from valueChanges_idField [OF m1] l
  have "[withId \<lparr>idField = Some ''name''\<rparr> D1] ! 0 = (data D1)(''name'' \<mapsto> VString (id D1))"
    by simp
  then have p1: "withId \<lparr>idField = Some ''name''\<rparr> D1 = [''name'' \<mapsto> VString ''d1'']"
    by (simp add: D1_def)
  from valueChanges_idField [OF m2] l
  have "[withId \<lparr>idField = None\<rparr> D1] ! 0 = data D1"
    by simp
  then have p2: "withId \<lparr>idField = None\<rparr> D1 = [''name'' \<mapsto> VString ''one'']"
    by (simp add: D1_def)
  from e1 e2 p1 p2 show ?thesis by simp
qed

section \<open>Validation of the event kinds\<close>

lemma all_recognized_iff: "all_recognized evs = (\<forall>e \<in> set evs. recognized e)"
  by (induction evs) simp_all

lemma recognized_iff: "recognized e = (e \<in> {''added'', ''modified'', ''removed''})"
  by (simp add: recognized_def)








text \<open>
  C2. \<open>snapshotChanges\<close> fails with a validation error, whatever the query and its listener
  are, exactly when its argument holds a value outside \<open>added\<close>, \<open>modified\<close>, \<open>removed\<close>;
  with the argument absent or empty it returns the gated stream of sorted changes.
\<close>

theorem snapshotChanges_validation:
  "(snapshotChanges events query = Inl ValidationError)
     = (\<exists>evs. events = Some evs \<and> (\<exists>e \<in> set evs. e \<notin> {''added'', ''modified'', ''removed''}))
   \<and> (events = None \<or> events = Some []
        \<longrightarrow> snapshotChanges events query = Inr (keepUnstableUntilFirst (sortedChanges query [])))"
proof (cases events)
  case None
  then show ?thesis by (simp add: snapshotChanges_def)
next
  case (Some evs)
  have "all_recognized evs = (\<forall>e \<in> set evs. e \<in> {''added'', ''modified'', ''removed''})"
    unfolding all_recognized_iff recognized_iff ..
  with Some show ?thesis by (auto simp: snapshotChanges_def)
qed

text \<open>C2 at the scenario of the specification, and at the absent and the empty argument.\<close>

theorem snapshotChanges_validation_witness:
  "snapshotChanges (Some [''bogus-kind''])
      (query_of [Next \<lparr>docs = [D1], snapshot_docChanges = [added D1 0]\<rparr>]) = Inl ValidationError
   \<and> snapshotChanges None (query_of [Next \<lparr>docs = [D1], snapshot_docChanges = [added D1 0]\<rparr>])
     = Inr [Next [D1]]
   \<and> snapshotChanges (Some []) (query_of [Next \<lparr>docs = [D1], snapshot_docChanges = [added D1 0]\<rparr>])
     = Inr [Next [D1]]"
proof -
  let ?q = "query_of [Next \<lparr>docs = [D1], snapshot_docChanges = [added D1 0]\<rparr>]"
  have bad: "\<exists>evs. Some [''bogus-kind''] = Some evs \<and> (\<exists>e \<in> set evs. e \<notin> {''added'', ''modified'', ''removed''})"
    by simp
  have run: "keepUnstableUntilFirst (sortedChanges ?q []) = [Next [D1]]"
    by (simp add: sortedChanges_def combineChange_def requested_batch_def facade_defs example_defs)
  from snapshotChanges_validation [of "Some [''bogus-kind'']" ?q] bad
  have "snapshotChanges (Some [''bogus-kind'']) ?q = Inl ValidationError" by blast
  moreover from snapshotChanges_validation [of None ?q]
  have "snapshotChanges None ?q = Inr [Next [D1]]" by (simp add: run)
  moreover from snapshotChanges_validation [of "Some []" ?q]
  have "snapshotChanges (Some []) ?q = Inr [Next [D1]]" by (simp add: run)
  ultimately show ?thesis by blast
qed







section \<open>The sorted projection\<close>

lemma delete_at_eq: "i < length xs \<Longrightarrow> delete_at i xs = Inr (take i xs @ drop (Suc i) xs)"
  by (induction i xs rule: delete_at.induct) simp_all

lemma insert_at_eq: "i \<le> length xs \<Longrightarrow> insert_at i y xs = Inr (take i xs @ y # drop i xs)"
  by (induction i y xs rule: insert_at.induct) simp_all


lemma delete_at_length: "delete_at i xs = Inr ys \<Longrightarrow> Suc (length ys) = length xs"
  by (induction i xs arbitrary: ys rule: delete_at.induct) (auto split: sum.splits)

lemma insert_at_length: "insert_at i y xs = Inr ys \<Longrightarrow> length ys = Suc (length xs)"
  by (induction i y xs arbitrary: ys rule: insert_at.induct) (auto split: sum.splits)

lemma replace_at_length: "replace_at i y xs = Inr ys \<Longrightarrow> length ys = length xs"
  by (induction i y xs arbitrary: ys rule: replace_at.induct) (auto split: sum.splits)

lemma combineChanges_append:
  "combineChanges p (batch @ batch')
   = (case combineChanges p batch of Inl e \<Rightarrow> Inl e | Inr p' \<Rightarrow> combineChanges p' batch')"
  by (induction batch arbitrary: p) (simp_all split: sum.splits)





lemma emissions_Next: "emissions (map Next xs) = xs"
  by (induction xs) simp_all






lemma combineChange_length:
  assumes "combineChange p c = Inr p'"
  shows "int (length p') = int (length p)
           + (if change_type c = Added then 1 else 0) - (if change_type c = Removed then 1 else 0)"
proof (cases "change_type c")
  case Added
  with assms show ?thesis
    by (auto simp: combineChange_def split: if_splits dest: insert_at_length)
next
  case Modified
  have "length p' = length p"
    if "delete_at i p = Inr q" and "insert_at j y q = Inr p'" for i j y q
    using delete_at_length [OF that(1)] insert_at_length [OF that(2)] by simp
  with Modified assms show ?thesis
    by (auto simp: combineChange_def split: if_splits sum.splits dest: replace_at_length)
next
  case Removed
  with assms show ?thesis
    by (auto simp: combineChange_def split: if_splits dest: delete_at_length)
qed

lemma combineChanges_length:
  "combineChanges p batch = Inr p'
   \<Longrightarrow> int (length p') = int (length p)
         + int (length (filter (\<lambda>c. change_type c = Added) batch))
         - int (length (filter (\<lambda>c. change_type c = Removed) batch))"
proof (induction batch arbitrary: p)
  case Nil
  then show ?case by simp
next
  case (Cons c batch)
  from Cons.prems obtain q where step: "combineChange p c = Inr q"
    and rest: "combineChanges q batch = Inr p'"
    by (auto split: sum.splits)
  from combineChange_length [OF step] Cons.IH [OF rest] show ?case
    by (simp split: if_splits)
qed

lemma add_all_snoc: "add_all (ds @ [x]) = add_all ds @ [added x (int (length ds))]"
  by (simp add: add_all_def nth_append)

lemma add_all_result: "combineChanges [] (add_all ds) = Inr ds"
proof (induction ds rule: rev_induct)
  case Nil
  show ?case by (simp add: add_all_def)
next
  case (snoc x ds)
  have "insert_at (length ds) x ds = Inr (ds @ [x])"
    using insert_at_eq [of "length ds" ds x] by simp
  then have "combineChange ds (added x (int (length ds))) = Inr (ds @ [x])"
    by (simp add: combineChange_def added_def)
  with snoc show ?case
    by (simp add: add_all_snoc combineChanges_append)
qed

lemma remove_reversed_result:
  "combineChanges ds (map (\<lambda>i. removed (g i) (int i)) (rev [0..<length ds])) = Inr []"
proof (induction ds rule: rev_induct)
  case Nil
  show ?case by simp
next
  case (snoc x ds)
  have "delete_at (length ds) (ds @ [x]) = Inr ds"
    using delete_at_eq [of "length ds" "ds @ [x]"] by simp
  then have "combineChange (ds @ [x]) (removed (g (length ds)) (int (length ds))) = Inr ds"
    by (simp add: combineChange_def removed_def)
  with snoc show ?case by simp
qed

text \<open>
  C6. When a sequence of change records applies to the empty projection, the length of the
  result is the number of additions minus the number of removals; applying the same sequence
  to the empty projection again gives the same result; and adding documents at increasing
  indices and then removing them in reverse index order gives back the empty projection.
\<close>

theorem combineChanges_laws:
  "(combineChanges [] batch = Inr p
      \<longrightarrow> int (length p) = int (length (filter (\<lambda>c. change_type c = Added) batch))
                            - int (length (filter (\<lambda>c. change_type c = Removed) batch)))
   \<and> (combineChanges [] batch = first \<and> combineChanges [] batch = again \<longrightarrow> first = again)
   \<and> combineChanges [] (add_all ds) = Inr ds
   \<and> combineChanges [] (add_all ds @ remove_all_reversed ds) = Inr []"
proof -
  have "combineChanges [] (add_all ds @ remove_all_reversed ds) = Inr []"
    by (simp add: combineChanges_append add_all_result remove_all_reversed_def
        remove_reversed_result)
  moreover have "int (length p) = int (length (filter (\<lambda>c. change_type c = Added) batch))
                            - int (length (filter (\<lambda>c. change_type c = Removed) batch))"
    if "combineChanges [] batch = Inr p"
    using combineChanges_length [OF that] by simp
  ultimately show ?thesis
    using add_all_result [of ds] by blast
qed

text \<open>C6 at two additions, a modification and a removal, and at the round trip of two documents.\<close>

theorem combineChanges_laws_witness:
  "combineChanges [] [added D1 0, added D2 1, modified D1 0 1, removed D2 0] = Inr [D1]
   \<and> int (length [D1]) = int 2 - int 1
   \<and> add_all [D1, D2] @ remove_all_reversed [D1, D2]
       = [added D1 0, added D2 1, removed D2 1, removed D1 0]
   \<and> combineChanges [] [added D1 0, added D2 1, removed D2 1, removed D1 0] = Inr []"
proof -
  let ?batch = "[added D1 0, added D2 1, modified D1 0 1, removed D2 0]"
  have run: "combineChanges [] ?batch = Inr [D1]"
    by (simp add: combineChange_def added_def modified_def removed_def)
  have batch: "add_all [D1, D2] @ remove_all_reversed [D1, D2]
       = [added D1 0, added D2 1, removed D2 1, removed D1 0]"
    by (simp add: add_all_def remove_all_reversed_def upt_rec)
  from combineChanges_laws [of ?batch "[D1]" "Inr [D1]" "Inr [D1]" "[D1, D2]"] run
  have "int (length [D1]) = int (length (filter (\<lambda>c. change_type c = Added) ?batch))
                            - int (length (filter (\<lambda>c. change_type c = Removed) ?batch))"
    and "combineChanges [] (add_all [D1, D2] @ remove_all_reversed [D1, D2]) = Inr []"
    by blast+
  with run batch show ?thesis
    by (simp add: added_def modified_def removed_def)
qed

section \<open>The stabilization gate\<close>

lemma gate_first_when_stable: "first_when_stable n (gate n buf es)"
proof (induction n buf es rule: gate.induct)
  case (5 n buf es)
  then show ?case by (cases buf) simp_all
qed simp_all

lemma scan_first_when_stable: "first_when_stable n (scan f acc es) = first_when_stable n es"
  by (induction es arbitrary: n acc rule: emissions.induct) simp_all

lemma gate_release:
  "emissions (gate n buf held) = [] \<Longrightarrow> (\<forall>err. Error err \<notin> set held)
   \<Longrightarrow> outstanding n held = 1
   \<Longrightarrow> (emissions held = [] \<longrightarrow> buf = Some v) \<and> (emissions held \<noteq> [] \<longrightarrow> last (emissions held) = v)
   \<Longrightarrow> gate n buf (held @ Stable # rest) = gate n buf held @ Stable # Next v # rest"
proof (induction n buf held rule: gate.induct)
  case (1 n buf)
  then show ?case by simp
next
  case (2 n buf x es)
  then show ?case by (simp split: if_splits)
next
  case (3 n buf e es)
  then show ?case by auto
next
  case (4 n buf es)
  then show ?case by simp
next
  case (5 n buf es)
  then show ?case by (cases buf) (simp_all split: if_splits)
qed

lemma gate_passes:
  "emissions (gate n buf begun) \<noteq> [] \<Longrightarrow> gate n buf (begun @ rest) = gate n buf begun @ rest"
proof (induction n buf begun rule: gate.induct)
  case (5 n buf es)
  then show ?case by (cases buf) (simp_all split: if_splits)
qed (simp_all split: if_splits)

text \<open>The gate before its first delivery, read from the computed stream.\<close>

lemma emissions_markers: "emissions (markers es) = []"
  by (induction es rule: markers.induct) simp_all

lemma markers_quiet: "emissions quiet = [] \<Longrightarrow> \<not> failed quiet \<Longrightarrow> markers quiet = quiet"
  by (induction quiet rule: emissions.induct) simp_all

lemma gate_unsettled:
  "0 < n \<Longrightarrow> unsettled n es \<Longrightarrow> \<not> failed es \<Longrightarrow> gate n buf es = markers es"
proof (induction n buf es rule: gate.induct)
  case (5 n buf es)
  then show ?case by (cases buf) simp_all
qed simp_all

lemma gate_holding: "holding n es \<Longrightarrow> \<not> failed es \<Longrightarrow> gate n None es = markers es"
proof (induction es arbitrary: n)
  case Nil
  show ?case by simp
next
  case (Cons e es)
  then show ?case by (cases e) (simp_all add: gate_unsettled)
qed

lemma failed_iff: "failed es = (\<exists>err. Error err \<in> set es)"
  by (induction es rule: failed.induct) auto

lemma gate_release_holding:
  assumes "holding n held" and "\<not> failed held" and "emissions held \<noteq> []"
    and "outstanding n held = 1"
  shows "gate n None (held @ Stable # rest)
         = markers held @ Stable # Next (last (emissions held)) # rest"
proof -
  from assms(1,2) have held: "gate n None held = markers held" by (rule gate_holding)
  then have "emissions (gate n None held) = []" by (simp add: emissions_markers)
  moreover from assms(2) have "\<forall>err. Error err \<notin> set held" by (simp add: failed_iff)
  ultimately have "gate n None (held @ Stable # rest)
      = gate n None held @ Stable # Next (last (emissions held)) # rest"
    using assms(3,4) by (intro gate_release) simp_all
  with held show ?thesis by simp
qed

lemma gate_at_once:
  "emissions quiet = [] \<Longrightarrow> \<not> failed quiet \<Longrightarrow> outstanding n quiet = 0
   \<Longrightarrow> gate n None (quiet @ Next x # rest) = quiet @ Next x # rest"
  by (induction quiet arbitrary: n rule: emissions.induct) simp_all

lemma gate_stabilizes: "stabilizes (\<lambda>es. es) computed (keepUnstableUntilFirst computed)"
  unfolding stabilizes_def keepUnstableUntilFirst_def
  by (auto simp: gate_holding gate_release_holding gate_at_once markers_quiet)

lemma scan_markers_append: "scan f acc (markers es @ rest) = markers es @ scan f acc rest"
  by (induction es rule: markers.induct) simp_all

lemma scan_markers: "scan f acc (markers es) = markers es"
  using scan_markers_append [of f acc es "[]"] by simp

lemma stabilizes_hold:
  "stabilizes after computed delivered \<Longrightarrow> holding 0 computed \<Longrightarrow> \<not> failed computed
   \<Longrightarrow> delivered = markers computed"
  by (simp add: stabilizes_def)

lemma stabilizes_release:
  "stabilizes after computed delivered \<Longrightarrow> computed = held @ Stable # rest
   \<Longrightarrow> holding 0 held \<Longrightarrow> \<not> failed held \<Longrightarrow> emissions held \<noteq> [] \<Longrightarrow> outstanding 0 held = 1
   \<Longrightarrow> delivered = markers held @ Stable # after (Next (last (emissions held)) # rest)"
  unfolding stabilizes_def by blast

lemma stabilizes_at_once:
  "stabilizes after computed delivered \<Longrightarrow> computed = quiet @ Next x # rest
   \<Longrightarrow> emissions quiet = [] \<Longrightarrow> \<not> failed quiet \<Longrightarrow> outstanding 0 quiet = 0
   \<Longrightarrow> delivered = markers quiet @ after (Next x # rest)"
  unfolding stabilizes_def by blast

lemma scan_stabilizes:
  "stabilizes (scan f acc) computed (scan f acc (keepUnstableUntilFirst computed))"
  unfolding stabilizes_def
proof (intro conjI allI impI)
  assume "holding 0 computed \<and> \<not> failed computed"
  then have "keepUnstableUntilFirst computed = markers computed"
    by (intro stabilizes_hold [OF gate_stabilizes]) simp_all
  then show "scan f acc (keepUnstableUntilFirst computed) = markers computed"
    by (simp add: scan_markers)
next
  fix held rest
  assume "computed = held @ Stable # rest \<and> holding 0 held \<and> \<not> failed held
              \<and> emissions held \<noteq> [] \<and> outstanding 0 held = 1"
  then have "keepUnstableUntilFirst computed
      = markers held @ Stable # Next (last (emissions held)) # rest"
    by (intro stabilizes_release [OF gate_stabilizes]) simp_all
  then show "scan f acc (keepUnstableUntilFirst computed)
      = markers held @ Stable # scan f acc (Next (last (emissions held)) # rest)"
    by (simp add: scan_markers_append)
next
  fix quiet x rest
  assume "computed = quiet @ Next x # rest \<and> emissions quiet = [] \<and> \<not> failed quiet
              \<and> outstanding 0 quiet = 0"
  then have "keepUnstableUntilFirst computed = markers quiet @ Next x # rest"
    by (intro stabilizes_at_once [OF gate_stabilizes]) simp_all
  then show "scan f acc (keepUnstableUntilFirst computed) = markers quiet @ scan f acc (Next x # rest)"
    by (simp add: scan_markers_append)
qed

text \<open>
  C8. On the stream of each of the four views the first emission comes at a moment when no
  "unstable" marker is outstanding. Each view relates the stream it computes before the gate
  to the stream it delivers as the gate of the specification does: while the first emission
  is held only the markers go by; when the last outstanding marker clears, exactly one held
  emission, the latest computed, is delivered; a first emission that arrives with no marker
  outstanding is delivered at once; and everything after the first delivery passes through
  unmodified (through the accumulation, for the audit trail).
\<close>

theorem stabilization_gate:
  "first_when_stable 0 (stateChanges events query)
   \<and> first_when_stable 0 (auditTrail events query)
   \<and> (\<forall>obs. snapshotChanges events query = Inr obs \<longrightarrow> first_when_stable 0 obs)
   \<and> first_when_stable 0 (valueChanges options query)
   \<and> (events = None \<or> events = Some []
      \<longrightarrow> stabilizes (\<lambda>es. es) (docChanges query) (stateChanges events query)
        \<and> stabilizes (scan (\<lambda>current action. current @ action) []) (docChanges query)
            (auditTrail events query))
   \<and> (events = Some evs \<and> evs \<noteq> []
      \<longrightarrow> stabilizes (\<lambda>es. es)
            (filter_op (\<lambda>changes. length changes > 0)
               (map_op (filter (\<lambda>change. indexOf evs (type_name (type change)) > -1))
                  (docChanges query)))
            (stateChanges events query)
        \<and> stabilizes (scan (\<lambda>current action. current @ action) [])
            (filter_op (\<lambda>changes. length changes > 0)
               (map_op (filter (\<lambda>change. indexOf evs (type_name (type change)) > -1))
                  (docChanges query)))
            (auditTrail events query))
   \<and> (validateEventsArray events = Inr validated
      \<longrightarrow> (\<exists>obs. snapshotChanges events query = Inr obs
             \<and> stabilizes (\<lambda>es. es) (sortedChanges query validated) obs))
   \<and> stabilizes (\<lambda>es. es)
        (map_op (\<lambda>actions. map (withId options) (docs actions)) (fromCollectionRef query))
        (valueChanges options query)
   \<and> stabilizes (\<lambda>es. es) computed (keepUnstableUntilFirst computed)
   \<and> (emissions (keepUnstableUntilFirst begun) \<noteq> []
      \<longrightarrow> keepUnstableUntilFirst (begun @ rest) = keepUnstableUntilFirst begun @ rest)"
proof -
  have gated: "first_when_stable 0 (keepUnstableUntilFirst es)" for es :: "'c event list"
    unfolding keepUnstableUntilFirst_def by (rule gate_first_when_stable)
  have state: "first_when_stable 0 (stateChanges events query)"
    unfolding stateChanges_def by (simp add: gated split: option.splits)
  then have audit: "first_when_stable 0 (auditTrail events query)"
    by (simp add: auditTrail_def scan_first_when_stable)
  have sorted: "\<forall>obs. snapshotChanges events query = Inr obs \<longrightarrow> first_when_stable 0 obs"
    unfolding snapshotChanges_def by (auto simp: gated split: sum.splits)
  have plain: "first_when_stable 0 (valueChanges options query)"
    unfolding valueChanges_def by (rule gated)
  have all_kinds: "stabilizes (\<lambda>es. es) (docChanges query) (stateChanges events query)
        \<and> stabilizes (scan (\<lambda>current action. current @ action) []) (docChanges query)
            (auditTrail events query)"
    if "events = None \<or> events = Some []"
  proof -
    from that have "stateChanges events query = keepUnstableUntilFirst (docChanges query)"
      by (auto simp: stateChanges_def)
    then show ?thesis
      by (simp add: auditTrail_def gate_stabilizes scan_stabilizes)
  qed
  have some_kinds: "stabilizes (\<lambda>es. es)
            (filter_op (\<lambda>changes. length changes > 0)
               (map_op (filter (\<lambda>change. indexOf evs (type_name (type change)) > -1))
                  (docChanges query)))
            (stateChanges events query)
        \<and> stabilizes (scan (\<lambda>current action. current @ action) [])
            (filter_op (\<lambda>changes. length changes > 0)
               (map_op (filter (\<lambda>change. indexOf evs (type_name (type change)) > -1))
                  (docChanges query)))
            (auditTrail events query)"
    if "events = Some evs \<and> evs \<noteq> []"
  proof -
    from that have "stateChanges events query
        = keepUnstableUntilFirst
            (filter_op (\<lambda>changes. length changes > 0)
               (map_op (filter (\<lambda>change. indexOf evs (type_name (type change)) > -1))
                  (docChanges query)))"
      by (simp add: stateChanges_def)
    then show ?thesis
      by (simp add: auditTrail_def gate_stabilizes scan_stabilizes)
  qed
  have projected: "\<exists>obs. snapshotChanges events query = Inr obs
             \<and> stabilizes (\<lambda>es. es) (sortedChanges query validated) obs"
    if "validateEventsArray events = Inr validated"
    using that by (simp add: snapshotChanges_def gate_stabilizes)
  have valued: "stabilizes (\<lambda>es. es)
        (map_op (\<lambda>actions. map (withId options) (docs actions)) (fromCollectionRef query))
        (valueChanges options query)"
    unfolding valueChanges_def by (rule gate_stabilizes)
  have pass: "keepUnstableUntilFirst (begun @ rest) = keepUnstableUntilFirst begun @ rest"
    if "emissions (keepUnstableUntilFirst begun) \<noteq> []"
    unfolding keepUnstableUntilFirst_def
    using that by (intro gate_passes) (simp add: keepUnstableUntilFirst_def)
  from state audit sorted plain all_kinds some_kinds projected valued
    gate_stabilizes [of computed] pass
  show ?thesis by (intro conjI impI) blast+
qed

text \<open>
  C8 at a listener that reports two snapshots while a marker is outstanding and a third one
  after it has cleared: in each of the four views the first snapshot is never delivered, the
  second is delivered when the marker clears, the third passes through. With the marker
  never cleared nothing is delivered, and with no marker the first snapshot is delivered at
  once.
\<close>

theorem stabilization_gate_witness:
  "stateChanges None (query_of
      [Unstable, Next \<lparr>docs = [D1], snapshot_docChanges = [added D1 0]\<rparr>,
       Next \<lparr>docs = [D1, D2], snapshot_docChanges = [added D2 1]\<rparr>, Stable,
       Next \<lparr>docs = [D2], snapshot_docChanges = [removed D1 0]\<rparr>])
     = [Unstable, Stable, Next [action (added D2 1)], Next [action (removed D1 0)]]
   \<and> auditTrail None (query_of
      [Unstable, Next \<lparr>docs = [D1], snapshot_docChanges = [added D1 0]\<rparr>,
       Next \<lparr>docs = [D1, D2], snapshot_docChanges = [added D2 1]\<rparr>, Stable,
       Next \<lparr>docs = [D2], snapshot_docChanges = [removed D1 0]\<rparr>])
     = [Unstable, Stable, Next [action (added D2 1)],
        Next [action (added D2 1), action (removed D1 0)]]
   \<and> snapshotChanges None (query_of
      [Unstable, Next \<lparr>docs = [D1], snapshot_docChanges = [added D1 0]\<rparr>,
       Next \<lparr>docs = [D1, D2], snapshot_docChanges = [added D2 1]\<rparr>, Stable,
       Next \<lparr>docs = [D2], snapshot_docChanges = [removed D1 0]\<rparr>])
     = Inr [Unstable, Stable, Next [D1, D2], Next [D2]]
   \<and> valueChanges \<lparr>idField = None\<rparr> (query_of
      [Unstable, Next \<lparr>docs = [D1], snapshot_docChanges = [added D1 0]\<rparr>,
       Next \<lparr>docs = [D1, D2], snapshot_docChanges = [added D2 1]\<rparr>, Stable,
       Next \<lparr>docs = [D2], snapshot_docChanges = [removed D1 0]\<rparr>])
     = [Unstable, Stable, Next [data D1, data D2], Next [data D2]]
   \<and> stateChanges (Some [''added'']) (query_of
      [Unstable, Next \<lparr>docs = [D1], snapshot_docChanges = [added D1 0]\<rparr>,
       Next \<lparr>docs = [D1, D2], snapshot_docChanges = [added D2 1]\<rparr>, Stable,
       Next \<lparr>docs = [D2], snapshot_docChanges = [removed D1 0]\<rparr>])
     = [Unstable, Stable, Next [action (added D2 1)]]
   \<and> valueChanges \<lparr>idField = None\<rparr> (query_of
      [Unstable, Next \<lparr>docs = [D1], snapshot_docChanges = [added D1 0]\<rparr>]) = [Unstable]
   \<and> auditTrail None (query_of
      [Next \<lparr>docs = [D1], snapshot_docChanges = [added D1 0]\<rparr>, Unstable,
       Next \<lparr>docs = [D1, D2], snapshot_docChanges = [added D2 1]\<rparr>])
     = [Next [action (added D1 0)], Unstable, Next [action (added D1 0), action (added D2 1)]]
   \<and> first_when_stable 0 (stateChanges None (query_of
      [Unstable, Next \<lparr>docs = [D1], snapshot_docChanges = [added D1 0]\<rparr>,
       Next \<lparr>docs = [D1, D2], snapshot_docChanges = [added D2 1]\<rparr>, Stable,
       Next \<lparr>docs = [D2], snapshot_docChanges = [removed D1 0]\<rparr>]))
   \<and> keepUnstableUntilFirst ([Next [D1]] @ [Next [D2]]) = [Next [D1], Next [D2]]"
proof -
  let ?s1 = "\<lparr>docs = [D1], snapshot_docChanges = [added D1 0]\<rparr>"
  let ?s2 = "\<lparr>docs = [D1, D2], snapshot_docChanges = [added D2 1]\<rparr>"
  let ?s3 = "\<lparr>docs = [D2], snapshot_docChanges = [removed D1 0]\<rparr>"
  let ?q = "query_of [Unstable, Next ?s1, Next ?s2, Stable, Next ?s3]"
  let ?h = "query_of [Unstable, Next ?s1]"
  let ?m = "query_of [Next ?s1, Unstable, Next ?s2]"
  let ?a1 = "action (added D1 0)" and ?a2 = "action (added D2 1)" and ?a3 = "action (removed D1 0)"
  note released = stabilization_gate [where events = None and query = ?q
      and options = "\<lparr>idField = None\<rparr>" and validated = "[]" and begun = "[Next [D1]]"
      and rest = "[Next [D2]]"]
  note filtered = stabilization_gate [where events = "Some [''added'']" and evs = "[''added'']"
      and query = ?q]
  note held = stabilization_gate [where query = ?h and options = "\<lparr>idField = None\<rparr>"]
  note at_once = stabilization_gate [where events = None and query = ?m]
  have none: "None = None \<or> None = Some ([] :: string list)" by simp

  have eq0: "docChanges ?q = [Unstable, Next [?a1], Next [?a2]] @ Stable # [Next [?a3]]"
    by (simp add: docChanges_def fromCollectionRef_def example_defs)
  from released none
  have st0: "stabilizes (\<lambda>es. es) (docChanges ?q) (stateChanges None ?q)" by blast
  have "stateChanges None ?q
      = markers [Unstable, Next [?a1], Next [?a2]] @ Stable
        # Next (last (emissions [Unstable, Next [?a1], Next [?a2]])) # [Next [?a3]]"
    by (rule stabilizes_release [OF st0 eq0]) simp_all
  then have state: "stateChanges None ?q = [Unstable, Stable, Next [?a2], Next [?a3]]"
    by simp

  have eq1: "docChanges ?q = [Unstable, Next [?a1], Next [?a2]] @ Stable # [Next [?a3]]"
    by (simp add: docChanges_def fromCollectionRef_def example_defs)
  from released none
  have st1: "stabilizes (scan (\<lambda>current action. current @ action) []) (docChanges ?q) (auditTrail None ?q)"
    by blast
  have "auditTrail None ?q
      = markers [Unstable, Next [?a1], Next [?a2]] @ Stable
        # scan (\<lambda>current action. current @ action) []
            (Next (last (emissions [Unstable, Next [?a1], Next [?a2]])) # [Next [?a3]])"
    by (rule stabilizes_release [OF st1 eq1]) simp_all
  then have audit: "auditTrail None ?q = [Unstable, Stable, Next [?a2], Next [?a2, ?a3]]"
    by simp

  have "validateEventsArray None = Inr []" by simp
  with released obtain obs where obs: "snapshotChanges None ?q = Inr obs"
    and "stabilizes (\<lambda>es. es) (sortedChanges ?q []) obs"
    by blast
  moreover have "sortedChanges ?q [] = [Unstable, Next [D1], Next [D1, D2]] @ Stable # [Next [D2]]"
    by (simp add: sortedChanges_def requested_batch_def combineChange_def fromCollectionRef_def
        example_defs)
  ultimately have "obs = markers [Unstable, Next [D1], Next [D1, D2]] @ Stable
        # Next (last (emissions [Unstable, Next [D1], Next [D1, D2]])) # [Next [D2]]"
    by (intro stabilizes_release) simp_all
  with obs have proj: "snapshotChanges None ?q = Inr [Unstable, Stable, Next [D1, D2], Next [D2]]"
    by simp

  have eq2: "map_op (\<lambda>actions. map (withId \<lparr>idField = None\<rparr>) (docs actions)) (fromCollectionRef ?q)
      = [Unstable, Next [data D1], Next [data D1, data D2]] @ Stable # [Next [data D2]]"
    by (simp add: fromCollectionRef_def withId_def query_of_def)
  from released
  have st2: "stabilizes (\<lambda>es. es)
        (map_op (\<lambda>actions. map (withId \<lparr>idField = None\<rparr>) (docs actions)) (fromCollectionRef ?q))
        (valueChanges \<lparr>idField = None\<rparr> ?q)"
    by blast
  have "valueChanges \<lparr>idField = None\<rparr> ?q
      = markers [Unstable, Next [data D1], Next [data D1, data D2]] @ Stable
        # Next (last (emissions [Unstable, Next [data D1], Next [data D1, data D2]]))
        # [Next [data D2]]"
    by (rule stabilizes_release [OF st2 eq2]) simp_all
  then have plain: "valueChanges \<lparr>idField = None\<rparr> ?q
      = [Unstable, Stable, Next [data D1, data D2], Next [data D2]]"
    by simp

  have some: "Some [''added''] = Some [''added''] \<and> [''added''] \<noteq> []" by simp
  have eq3: "filter_op (\<lambda>changes. length changes > 0)
          (map_op (filter (\<lambda>change. indexOf [''added''] (type_name (type change)) > -1))
             (docChanges ?q))
      = [Unstable, Next [?a1], Next [?a2]] @ Stable # []"
    by (simp add: docChanges_def fromCollectionRef_def example_defs)
  from filtered some
  have st3: "stabilizes (\<lambda>es. es)
          (filter_op (\<lambda>changes. length changes > 0)
             (map_op (filter (\<lambda>change. indexOf [''added''] (type_name (type change)) > -1))
                (docChanges ?q)))
          (stateChanges (Some [''added'']) ?q)"
    by blast
  have "stateChanges (Some [''added'']) ?q
      = markers [Unstable, Next [?a1], Next [?a2]] @ Stable
        # Next (last (emissions [Unstable, Next [?a1], Next [?a2]])) # []"
    by (rule stabilizes_release [OF st3 eq3]) simp_all
  then have added: "stateChanges (Some [''added'']) ?q = [Unstable, Stable, Next [?a2]]"
    by simp

  have "map_op (\<lambda>actions. map (withId \<lparr>idField = None\<rparr>) (docs actions)) (fromCollectionRef ?h)
      = [Unstable, Next [data D1]]"
    by (simp add: fromCollectionRef_def withId_def query_of_def)
  moreover from held
  have "stabilizes (\<lambda>es. es)
        (map_op (\<lambda>actions. map (withId \<lparr>idField = None\<rparr>) (docs actions)) (fromCollectionRef ?h))
        (valueChanges \<lparr>idField = None\<rparr> ?h)"
    by blast
  ultimately have "stabilizes (\<lambda>es. es) [Unstable, Next [data D1]] (valueChanges \<lparr>idField = None\<rparr> ?h)"
    by simp
  then have "valueChanges \<lparr>idField = None\<rparr> ?h = markers [Unstable, Next [data D1]]"
    by (rule stabilizes_hold) simp_all
  then have never: "valueChanges \<lparr>idField = None\<rparr> ?h = [Unstable]" by simp

  have eq4: "docChanges ?m = [] @ Next [?a1] # [Unstable, Next [?a2]]"
    by (simp add: docChanges_def fromCollectionRef_def example_defs)
  from at_once none
  have st4: "stabilizes (scan (\<lambda>current action. current @ action) []) (docChanges ?m) (auditTrail None ?m)"
    by blast
  have "auditTrail None ?m
      = markers ([] :: DocumentChangeAction list event list)
        @ scan (\<lambda>current action. current @ action) [] (Next [?a1] # [Unstable, Next [?a2]])"
    by (rule stabilizes_at_once [OF st4 eq4]) simp_all
  then have once: "auditTrail None ?m = [Next [?a1], Unstable, Next [?a1, ?a2]]"
    by simp

  from released have "first_when_stable 0 (stateChanges None ?q)" by blast
  then have first: "first_when_stable 0 (stateChanges None ?q)" .
  have "emissions (keepUnstableUntilFirst [Next [D1]]) \<noteq> []"
    by (simp add: keepUnstableUntilFirst_def)
  with released
  have "keepUnstableUntilFirst ([Next [D1]] @ [Next [D2]]) = keepUnstableUntilFirst [Next [D1]] @ [Next [D2]]"
    by blast
  then have pass: "keepUnstableUntilFirst ([Next [D1]] @ [Next [D2]]) = [Next [D1], Next [D2]]"
    by (simp add: keepUnstableUntilFirst_def)
  from state audit proj plain added never once first pass show ?thesis
    by (intro conjI)
qed

section \<open>The one-shot fetch\<close>

text \<open>
  C9. \<open>get\<close> delivers the one outcome of the fetch of the query, its result or its failure,
  on the scheduler inside Angular, and nothing else. It is independent of the streaming
  path: what it delivers does not depend on what the listener reports, and what the four
  streaming views emit, hence the projection and the audit trail they accumulate, does not
  depend on the fetch.
\<close>

theorem get_one_shot:
  "get options query
     = (case query_get query options of
          Inl e \<Rightarrow> [(InsideAngular, Error e)]
        | Inr snapshot \<Rightarrow> [(InsideAngular, Next snapshot)])
   \<and> map fst (get options query) = [InsideAngular]
   \<and> get options (query\<lparr>listener := es\<rparr>) = get options query
   \<and> stateChanges events (query\<lparr>query_get := fetch\<rparr>) = stateChanges events query
   \<and> auditTrail events (query\<lparr>query_get := fetch\<rparr>) = auditTrail events query
   \<and> snapshotChanges events (query\<lparr>query_get := fetch\<rparr>) = snapshotChanges events query
   \<and> valueChanges idOptions (query\<lparr>query_get := fetch\<rparr>) = valueChanges idOptions query"
proof -
  have outcome: "get options query
     = (case query_get query options of
          Inl e \<Rightarrow> [(InsideAngular, Error e)]
        | Inr snapshot \<Rightarrow> [(InsideAngular, Next snapshot)])"
    by (simp add: get_def from_promise_def observeOn_def split: sum.splits)
  then have once: "map fst (get options query) = [InsideAngular]"
    by (simp split: sum.splits)
  have reads: "get options (query\<lparr>listener := es\<rparr>) = get options query"
    by (simp add: get_def)
  have source: "fromCollectionRef (query\<lparr>query_get := fetch\<rparr>) = fromCollectionRef query"
    by (simp add: fromCollectionRef_def)
  then have decoded: "docChanges (query\<lparr>query_get := fetch\<rparr>) = docChanges query"
    by (simp add: docChanges_def)
  have state: "stateChanges events (query\<lparr>query_get := fetch\<rparr>) = stateChanges events query"
    unfolding stateChanges_def decoded by (rule refl)
  have audit: "auditTrail events (query\<lparr>query_get := fetch\<rparr>) = auditTrail events query"
    unfolding auditTrail_def state by (rule refl)
  have proj: "snapshotChanges events (query\<lparr>query_get := fetch\<rparr>) = snapshotChanges events query"
    unfolding snapshotChanges_def sortedChanges_def source by (rule refl)
  have plain: "valueChanges idOptions (query\<lparr>query_get := fetch\<rparr>) = valueChanges idOptions query"
    unfolding valueChanges_def source by (rule refl)
  from outcome once reads state audit proj plain show ?thesis by blast
qed

text \<open>C9 at a fetch that succeeds and at a fetch that fails.\<close>

theorem get_one_shot_witness:
  "get None (query_of []) = [(InsideAngular, Next \<lparr>docs = [D1], snapshot_docChanges = [added D1 0]\<rparr>)]
   \<and> get (Some SourceServer) \<lparr>listener = [], query_get = (\<lambda>options. Inl UpstreamListenerError)\<rparr>
     = [(InsideAngular, Error UpstreamListenerError)]"
proof -
  from get_one_shot [of None "query_of []"]
  have "get None (query_of [])
     = (case query_get (query_of []) None of
          Inl e \<Rightarrow> [(InsideAngular, Error e)]
        | Inr snapshot \<Rightarrow> [(InsideAngular, Next snapshot)])"
    by blast
  then have ok: "get None (query_of [])
      = [(InsideAngular, Next \<lparr>docs = [D1], snapshot_docChanges = [added D1 0]\<rparr>)]"
    by (simp add: query_of_def)
  let ?failing = "\<lparr>listener = [], query_get = (\<lambda>options. Inl UpstreamListenerError)\<rparr>"
  from get_one_shot [of "Some SourceServer" ?failing]
  have "get (Some SourceServer) ?failing
     = (case query_get ?failing (Some SourceServer) of
          Inl e \<Rightarrow> [(InsideAngular, Error e)]
        | Inr snapshot \<Rightarrow> [(InsideAngular, Next snapshot)])"
    by blast
  then have "get (Some SourceServer) ?failing = [(InsideAngular, Error UpstreamListenerError)]"
    by simp
  with ok show ?thesis by blast
qed

end
